theory Spec2Isabelle
  imports Complex_Main "HOL-Library.Word" "HOL-Library.Signed_Division"
begin

unbundle bit_operations_syntax

section \<open>Go values\<close>

text \<open>
  A Go \<open>string\<close> is a sequence of bytes and \<open>len\<close> counts bytes, so a document is a
  \<^typ>\<open>string\<close> (a list of 8-bit characters). Go's \<open>int\<close> is modelled by \<^typ>\<open>int\<close>:
  positions, lengths and chunk sizes stay far below \<open>2 ^ 63\<close> for every document that fits
  in memory, and no operation of the chunker relies on wrap-around. Integer division
  \<open>a / b\<close> of Go truncates towards zero; it is \<open>sdiv\<close>. A run-time panic is a value of
  type \<open>panic\<close>, carried on the left of a sum.
\<close>

datatype panic = IndexOutOfRange | SliceOutOfRange | DivideByZero

abbreviation newline :: char where
  "newline \<equiv> CHR 0x0A"

definition len :: "string \<Rightarrow> int" where
  "len s = int (length s)"

text \<open>\<open>text[i]\<close>: the byte at index \<open>i\<close>, or a panic outside \<open>0 \<le> i < len(text)\<close>.\<close>

definition index :: "string \<Rightarrow> int \<Rightarrow> panic + char" where
  "index s i = (if 0 \<le> i \<and> i < len s then Inr (s ! nat i) else Inl IndexOutOfRange)"

text \<open>\<open>s[lo:hi]\<close>: the bytes from \<open>lo\<close> up to \<open>hi\<close>, or a panic unless
  \<open>0 \<le> lo \<le> hi \<le> len(s)\<close>.\<close>

definition slice :: "string \<Rightarrow> int \<Rightarrow> int \<Rightarrow> panic + string" where
  "slice s lo hi =
     (if 0 \<le> lo \<and> lo \<le> hi \<and> hi \<le> len s
      then Inr (take (nat (hi - lo)) (drop (nat lo) s))
      else Inl SliceOutOfRange)"

definition Min :: "int \<Rightarrow> int \<Rightarrow> int" where
  "Min a b = (if a < b then a else b)"

section \<open>FindBestSplitPoint\<close>

text \<open>
  The four backward searches of \<open>FindBestSplitPoint\<close>, one function per \<open>for\<close> loop. Each
  starts at \<open>i = maxPos\<close> and runs while \<open>i > maxPos - w \<and> i > 0\<close>; the result is
  \<open>Some r\<close> when the loop body returns \<open>r\<close> and \<open>None\<close> when the loop ends without a match.
\<close>

definition sentence_end_at :: "string \<Rightarrow> int \<Rightarrow> panic + bool" where
  "sentence_end_at text i =
     (case index text i of
        Inl e \<Rightarrow> Inl e
      | Inr c \<Rightarrow>
          if c = CHR ''.'' \<or> c = CHR ''!'' \<or> c = CHR ''?'' then
            (if i + 1 \<ge> len text then Inr True
             else (case index text (i + 1) of
                     Inl e \<Rightarrow> Inl e
                   | Inr d \<Rightarrow> Inr (d = CHR '' '' \<or> d = newline)))
          else Inr False)"

function sentence_loop :: "string \<Rightarrow> int \<Rightarrow> int \<Rightarrow> panic + int option" where
  "sentence_loop text maxPos i =
     (if i > maxPos - 200 \<and> i > 0 then
        (case sentence_end_at text i of
           Inl e \<Rightarrow> Inl e
         | Inr True \<Rightarrow> Inr (Some (i + 1))
         | Inr False \<Rightarrow> sentence_loop text maxPos (i - 1))
      else Inr None)"
  by pat_completeness auto
termination
  by (relation "measure (\<lambda>(text, maxPos, i). nat i)") auto

declare sentence_loop.simps [simp del]

text \<open>The test of the second loop: \<open>i > 0\<close>, then \<open>text[i]\<close> a newline, then \<open>text[i-1]\<close>
  a newline, evaluated left to right.\<close>

definition paragraph_break_at :: "string \<Rightarrow> int \<Rightarrow> panic + bool" where
  "paragraph_break_at text i =
     (if i > 0 then
        (case index text i of
           Inl e \<Rightarrow> Inl e
         | Inr c \<Rightarrow>
             if c = newline then
               (case index text (i - 1) of
                  Inl e \<Rightarrow> Inl e
                | Inr d \<Rightarrow> Inr (d = newline))
             else Inr False)
      else Inr False)"

function paragraph_loop :: "string \<Rightarrow> int \<Rightarrow> int \<Rightarrow> panic + int option" where
  "paragraph_loop text maxPos i =
     (if i > maxPos - 300 \<and> i > 0 then
        (case paragraph_break_at text i of
           Inl e \<Rightarrow> Inl e
         | Inr True \<Rightarrow> Inr (Some i)
         | Inr False \<Rightarrow> paragraph_loop text maxPos (i - 1))
      else Inr None)"
  by pat_completeness auto
termination
  by (relation "measure (\<lambda>(text, maxPos, i). nat i)") auto

declare paragraph_loop.simps [simp del]

function line_loop :: "string \<Rightarrow> int \<Rightarrow> int \<Rightarrow> panic + int option" where
  "line_loop text maxPos i =
     (if i > maxPos - 100 \<and> i > 0 then
        (case index text i of
           Inl e \<Rightarrow> Inl e
         | Inr c \<Rightarrow>
             if c = newline then Inr (Some (i + 1))
             else line_loop text maxPos (i - 1))
      else Inr None)"
  by pat_completeness auto
termination
  by (relation "measure (\<lambda>(text, maxPos, i). nat i)") auto

declare line_loop.simps [simp del]

function word_loop :: "string \<Rightarrow> int \<Rightarrow> int \<Rightarrow> panic + int option" where
  "word_loop text maxPos i =
     (if i > maxPos - 50 \<and> i > 0 then
        (case index text i of
           Inl e \<Rightarrow> Inl e
         | Inr c \<Rightarrow>
             if c = CHR '' '' then Inr (Some (i + 1))
             else word_loop text maxPos (i - 1))
      else Inr None)"
  by pat_completeness auto
termination
  by (relation "measure (\<lambda>(text, maxPos, i). nat i)") auto

declare word_loop.simps [simp del]

definition FindBestSplitPoint :: "string \<Rightarrow> int \<Rightarrow> panic + int" where
  "FindBestSplitPoint text maxPos =
     (if maxPos \<ge> len text then Inr (len text)
      else case sentence_loop text maxPos maxPos of
        Inl e \<Rightarrow> Inl e
      | Inr (Some r) \<Rightarrow> Inr r
      | Inr None \<Rightarrow>
     (case paragraph_loop text maxPos maxPos of
        Inl e \<Rightarrow> Inl e
      | Inr (Some r) \<Rightarrow> Inr r
      | Inr None \<Rightarrow>
     (case line_loop text maxPos maxPos of
        Inl e \<Rightarrow> Inl e
      | Inr (Some r) \<Rightarrow> Inr r
      | Inr None \<Rightarrow>
     (case word_loop text maxPos maxPos of
        Inl e \<Rightarrow> Inl e
      | Inr (Some r) \<Rightarrow> Inr r
      | Inr None \<Rightarrow> Inr maxPos))))"


text \<open>
  The conditions the searches test, as predicates on a position: a sentence end is one of
  \<open>.\<close>, \<open>!\<close>, \<open>?\<close> followed by a space, a newline or the end of the text; a paragraph
  break is a newline whose predecessor is a newline.
\<close>

definition sentence_end :: "string \<Rightarrow> int \<Rightarrow> bool" where
  "sentence_end text i =
     ((text ! nat i = CHR ''.'' \<or> text ! nat i = CHR ''!'' \<or> text ! nat i = CHR ''?'') \<and>
      (i + 1 \<ge> len text \<or> text ! nat (i + 1) = CHR '' '' \<or> text ! nat (i + 1) = newline))"

definition paragraph_break :: "string \<Rightarrow> int \<Rightarrow> bool" where
  "paragraph_break text i = (text ! nat i = newline \<and> text ! nat (i - 1) = newline)"

definition byte_is :: "char \<Rightarrow> string \<Rightarrow> int \<Rightarrow> bool" where
  "byte_is c text i = (text ! nat i = c)"

text \<open>
  The shape the four loops share: the greatest \<open>k\<close> with \<open>lo < k\<close>, \<open>0 < k\<close>, \<open>k \<le> i\<close> and
  \<open>P k\<close>, if there is one.
\<close>

function scan_down :: "(int \<Rightarrow> bool) \<Rightarrow> int \<Rightarrow> int \<Rightarrow> int option" where
  "scan_down P lo i =
     (if i > lo \<and> i > 0 then (if P i then Some i else scan_down P lo (i - 1)) else None)"
  by pat_completeness auto
termination
  by (relation "measure (\<lambda>(P, lo, i). nat i)") auto

declare scan_down.simps [simp del]

definition split_rule :: "string \<Rightarrow> int \<Rightarrow> int" where
  "split_rule text pos =
     (case scan_down (sentence_end text) (pos - 200) pos of
        Some k \<Rightarrow> k + 1
      | None \<Rightarrow>
     (case scan_down (paragraph_break text) (pos - 300) pos of
        Some k \<Rightarrow> k
      | None \<Rightarrow>
     (case scan_down (byte_is newline text) (pos - 100) pos of
        Some k \<Rightarrow> k + 1
      | None \<Rightarrow>
     (case scan_down (byte_is (CHR '' '') text) (pos - 50) pos of
        Some k \<Rightarrow> k + 1
      | None \<Rightarrow> pos))))"

section \<open>strings.TrimSpace and strings.Split\<close>

text \<open>
  \<open>strings.TrimSpace\<close> removes the leading and the trailing white space of a string, rune
  by rune, where white space is what \<open>unicode.IsSpace\<close> accepts: the ASCII bytes
  \<open>\t \n \v \f \r\<close> and space, and the code points U+0085, U+00A0, U+1680, U+2000 to
  U+200A, U+2028, U+2029, U+202F, U+205F and U+3000 in their UTF-8 encoding. A byte
  that starts no valid encoding decodes as U+FFFD, which is not white space.
  \<open>leading_space s\<close> is the number of bytes of the white-space rune \<open>s\<close> starts with (0 if
  it starts with none), \<open>trailing_space s\<close> that of the rune it ends with.
\<close>

definition ascii_space :: "char \<Rightarrow> bool" where
  "ascii_space c = (let b = (of_char c :: nat) in (9 \<le> b \<and> b \<le> 13) \<or> b = 32)"

fun leading_space :: "string \<Rightarrow> nat" where
  "leading_space [] = 0"
| "leading_space (c # cs) =
     (let b = (of_char c :: nat) in
      if ascii_space c then 1
      else if b = 0xC2 then
        (case cs of
           d # _ \<Rightarrow> if (of_char d :: nat) = 0x85 \<or> (of_char d :: nat) = 0xA0 then 2 else 0
         | [] \<Rightarrow> 0)
      else if b = 0xE1 then
        (case cs of
           d # e # _ \<Rightarrow>
             if (of_char d :: nat) = 0x9A \<and> (of_char e :: nat) = 0x80 then 3 else 0
         | _ \<Rightarrow> 0)
      else if b = 0xE2 then
        (case cs of
           d # e # _ \<Rightarrow>
             if ((of_char d :: nat) = 0x80 \<and>
                   ((0x80 \<le> (of_char e :: nat) \<and> (of_char e :: nat) \<le> 0x8A) \<or>
                    (of_char e :: nat) = 0xA8 \<or> (of_char e :: nat) = 0xA9 \<or>
                    (of_char e :: nat) = 0xAF)) \<or>
                ((of_char d :: nat) = 0x81 \<and> (of_char e :: nat) = 0x9F)
             then 3 else 0
         | _ \<Rightarrow> 0)
      else if b = 0xE3 then
        (case cs of
           d # e # _ \<Rightarrow>
             if (of_char d :: nat) = 0x80 \<and> (of_char e :: nat) = 0x80 then 3 else 0
         | _ \<Rightarrow> 0)
      else 0)"

definition trailing_space :: "string \<Rightarrow> nat" where
  "trailing_space s =
     (case rev s of
        [] \<Rightarrow> 0
      | c # cs \<Rightarrow>
          if ascii_space c then 1
          else (case cs of
                  [] \<Rightarrow> 0
                | d # ds \<Rightarrow>
                    if leading_space [d, c] = 2 then 2
                    else (case ds of
                            [] \<Rightarrow> 0
                          | e # _ \<Rightarrow> if leading_space [e, d, c] = 3 then 3 else 0)))"

function TrimLeft :: "string \<Rightarrow> string" where
  "TrimLeft s = (if leading_space s = 0 then s else TrimLeft (drop (leading_space s) s))"
  by pat_completeness auto
termination
proof (relation "measure length")
  show "wf (measure length)" by simp
next
  fix s :: string
  assume "leading_space s \<noteq> 0"
  then have "s \<noteq> []" by (cases s) auto
  with \<open>leading_space s \<noteq> 0\<close> show "(drop (leading_space s) s, s) \<in> measure length"
    by simp
qed

declare TrimLeft.simps [simp del]

function TrimRight :: "string \<Rightarrow> string" where
  "TrimRight s =
     (if trailing_space s = 0 then s else TrimRight (take (length s - trailing_space s) s))"
  by pat_completeness auto
termination
proof (relation "measure length")
  show "wf (measure length)" by simp
next
  fix s :: string
  assume "trailing_space s \<noteq> 0"
  then have "s \<noteq> []" by (cases s) (auto simp: trailing_space_def)
  with \<open>trailing_space s \<noteq> 0\<close>
  show "(take (length s - trailing_space s) s, s) \<in> measure length"
    by simp
qed

declare TrimRight.simps [simp del]

definition TrimSpace :: "string \<Rightarrow> string" where
  "TrimSpace s = TrimRight (TrimLeft s)"

text \<open>A string of white-space runes only: nothing is left of it once they are removed.\<close>

definition whitespace_only :: "string \<Rightarrow> bool" where
  "whitespace_only s = (TrimLeft s = [])"

text \<open>\<open>strings.Split(s, "\n")\<close>: the pieces between the newlines, one more than there are
  newlines.\<close>

fun Split :: "string \<Rightarrow> string list" where
  "Split [] = [[]]"
| "Split (c # cs) =
     (if c = newline then [] # Split cs
      else (case Split cs of
              [] \<Rightarrow> [[c]]
            | l # ls \<Rightarrow> (c # l) # ls))"


section \<open>Headings\<close>

record HeadingInfo =
  Level :: int
  Text :: string
  Position :: int

text \<open>
  The pattern \<open>^(#{1,6})\s+(.+)$\<close> of \<open>ExtractHeadings\<close>, matched against a whole line:
  one to six \<open>#\<close>, then white space (\<open>\s\<close> is \<open>[\t\n\f\r ]\<close> in Go's syntax), then at
  least one character up to the end, none of them a newline. The quantifiers are greedy,
  so the white space takes as much as it can and gives back its last character only
  when nothing else is left for the second group. The result is the pair of the two
  groups, \<open>None\<close> when the line does not match.
\<close>

definition regex_space :: "char \<Rightarrow> bool" where
  "regex_space c =
     (let b = (of_char c :: nat) in b = 9 \<or> b = 10 \<or> b = 12 \<or> b = 13 \<or> b = 32)"

definition FindStringSubmatch :: "string \<Rightarrow> (string \<times> string) option" where
  "FindStringSubmatch line =
     (let hashes = takeWhile (\<lambda>c. c = CHR ''#'') line;
          rest = dropWhile (\<lambda>c. c = CHR ''#'') line;
          ws = takeWhile regex_space rest;
          body = dropWhile regex_space rest
      in if length hashes < 1 \<or> length hashes > 6 then None
         else if ws = [] then None
         else if body \<noteq> [] then (if newline \<in> set body then None else Some (hashes, body))
         else if length ws < 2 \<or> last ws = newline then None
         else Some (hashes, [last ws]))"

fun extract_loop :: "string list \<Rightarrow> int \<Rightarrow> HeadingInfo list \<Rightarrow> HeadingInfo list" where
  "extract_loop [] position headings = headings"
| "extract_loop (line # lines) position headings =
     (case FindStringSubmatch (TrimSpace line) of
        Some (hashes, body) \<Rightarrow>
          extract_loop lines (position + len line + 1)
            (headings @ [\<lparr>Level = len hashes, Text = TrimSpace body, Position = position\<rparr>])
      | None \<Rightarrow> extract_loop lines (position + len line + 1) headings)"

definition ExtractHeadings :: "string \<Rightarrow> HeadingInfo list" where
  "ExtractHeadings content = extract_loop (Split content) 0 []"

text \<open>
  \<open>GetHeadingContext\<close>: the stack is a slice whose last element is the top. The inner
  loop pops while the top is at least as deep as the new heading; the outer loop stops at
  the first heading at or after the position.
\<close>

function pop_loop :: "HeadingInfo list \<Rightarrow> int \<Rightarrow> HeadingInfo list" where
  "pop_loop stack level =
     (if length stack > 0 \<and> Level (last stack) \<ge> level then pop_loop (butlast stack) level
      else stack)"
  by pat_completeness auto
termination
  by (relation "measure (\<lambda>(stack, level). length stack)") auto

declare pop_loop.simps [simp del]

fun context_loop :: "HeadingInfo list \<Rightarrow> int \<Rightarrow> HeadingInfo list \<Rightarrow> HeadingInfo list" where
  "context_loop [] position stack = stack"
| "context_loop (heading # headings) position stack =
     (if Position heading \<ge> position then stack
      else context_loop headings position (pop_loop stack (Level heading) @ [heading]))"

definition GetHeadingContext :: "HeadingInfo list \<Rightarrow> int \<Rightarrow> string list" where
  "GetHeadingContext headings position = map Text (context_loop headings position [])"

text \<open>
  The heading-context lookup in the words of the specification: go through the headings
  in order and stop considering them at the first one at or after the position; before a
  heading is pushed, every entry of the stack whose level is at least the level of the
  new heading is removed; the texts of the final stack, in the order pushed, are the
  context. \<open>contextAt_all\<close> reads the other way the sentence can be read: every heading at
  or after the position is left out, wherever it stands in the sequence.
\<close>

definition push_heading :: "HeadingInfo list \<Rightarrow> HeadingInfo \<Rightarrow> HeadingInfo list" where
  "push_heading stack heading = filter (\<lambda>e. Level e < Level heading) stack @ [heading]"

definition contextAt :: "HeadingInfo list \<Rightarrow> int \<Rightarrow> string list" where
  "contextAt headings position =
     map Text (foldl push_heading [] (takeWhile (\<lambda>h. Position h < position) headings))"

definition contextAt_all :: "HeadingInfo list \<Rightarrow> int \<Rightarrow> string list" where
  "contextAt_all headings position =
     map Text (foldl push_heading [] (filter (\<lambda>h. Position h < position) headings))"

definition example_headings :: "HeadingInfo list" where
  "example_headings =
     [\<lparr>Level = 1, Text = ''Title'', Position = 0\<rparr>,
      \<lparr>Level = 2, Text = ''A'', Position = 20\<rparr>,
      \<lparr>Level = 3, Text = ''A1'', Position = 50\<rparr>,
      \<lparr>Level = 2, Text = ''B'', Position = 100\<rparr>]"

section \<open>ChunkDocument\<close>

record DocumentChunk =
  ID :: string
  FilePath :: string
  FileHash :: string
  ChunkIndex :: int
  Content :: string
  StartOffset :: int
  EndOffset :: int
  TokenCount :: int
  HeadingPath :: "string list"

text \<open>
  The field \<open>CreatedAt\<close>, a reading of the clock, is left out of the record, and so is what
  the function prints. The ratio \<open>approxTokensPerChar\<close> is a \<open>float64\<close> in the source; it
  is a rational here, multiplied and divided exactly, and the conversion \<open>int(x)\<close> drops
  the fraction. The results about the chunking loop below are stated for any
  \<open>maxChunkChars\<close> and \<open>overlapChars\<close>, whatever the conversion made of them.
\<close>

definition go_int :: "rat \<Rightarrow> int" where
  "go_int x = (if x < 0 then - \<lfloor>- x\<rfloor> else \<lfloor>x\<rfloor>)"

definition EstimateTokenCount :: "string \<Rightarrow> rat \<Rightarrow> int" where
  "EstimateTokenCount text approxTokensPerChar = go_int (of_int (len text) * approxTokensPerChar)"

text \<open>The \<open>%d\<close> of \<open>fmt.Sprintf\<close>: the decimal digits, after a minus sign when negative.\<close>

function digits :: "nat \<Rightarrow> string" where
  "digits n =
     (if n < 10 then [char_of (48 + n)] else digits (n div 10) @ [char_of (48 + n mod 10)])"
  by pat_completeness auto
termination
  by (relation "measure id") auto

declare digits.simps [simp del]

definition itoa :: "int \<Rightarrow> string" where
  "itoa i = (if i < 0 then CHR ''-'' # digits (nat (- i)) else digits (nat i))"

text \<open>
  The loop over the headings inside the chunking loop, with the two variables it
  assigns, \<open>bestEnd\<close> and \<open>bestHeadingLevel\<close>.
\<close>

fun heading_loop :: "HeadingInfo list \<Rightarrow> int \<Rightarrow> int \<Rightarrow> int \<times> int \<Rightarrow> int \<times> int" where
  "heading_loop [] minHeadingSplitPos idealEnd (bestEnd, bestHeadingLevel) =
     (bestEnd, bestHeadingLevel)"
| "heading_loop (heading # headings) minHeadingSplitPos idealEnd (bestEnd, bestHeadingLevel) =
     (if Position heading > minHeadingSplitPos \<and> Position heading \<le> idealEnd then
        (if Level heading < bestHeadingLevel
         then heading_loop headings minHeadingSplitPos idealEnd (Position heading, Level heading)
         else heading_loop headings minHeadingSplitPos idealEnd (bestEnd, bestHeadingLevel))
      else heading_loop headings minHeadingSplitPos idealEnd (bestEnd, bestHeadingLevel))"

text \<open>
  The first half of the loop body: from \<open>idealEnd := start + maxChunkChars\<close> to the
  value of \<open>bestEnd\<close> that the slice \<open>content[start:bestEnd]\<close> is taken with.
\<close>

definition choose_end :: "string \<Rightarrow> HeadingInfo list \<Rightarrow> int \<Rightarrow> int \<Rightarrow> panic + int" where
  "choose_end content headings maxChunkChars start =
     (let contentLen = len content;
          idealEnd = start + maxChunkChars;
          minHeadingSplitPos = start + (maxChunkChars sdiv 2);
          bestEnd = fst (heading_loop headings minHeadingSplitPos idealEnd (idealEnd, 7))
      in case (if bestEnd = idealEnd then FindBestSplitPoint content idealEnd
               else Inr bestEnd) of
           Inl e \<Rightarrow> Inl e
         | Inr bestEnd \<Rightarrow>
             let bestEnd = (if bestEnd > contentLen then contentLen else bestEnd);
                 bestEnd = (if bestEnd \<le> start
                            then start + Min maxChunkChars (contentLen - start)
                            else bestEnd)
             in Inr bestEnd)"

definition make_chunk ::
  "string \<Rightarrow> string \<Rightarrow> rat \<Rightarrow> HeadingInfo list \<Rightarrow> int \<Rightarrow> string \<Rightarrow> int \<Rightarrow> int \<Rightarrow> DocumentChunk"
where
  "make_chunk filePath fileHash approxTokensPerChar headings chunkIndex chunkContent start bestEnd =
     \<lparr>ID = fileHash @ ''_'' @ itoa chunkIndex,
      FilePath = filePath,
      FileHash = fileHash,
      ChunkIndex = chunkIndex,
      Content = chunkContent,
      StartOffset = start,
      EndOffset = bestEnd,
      TokenCount = EstimateTokenCount chunkContent approxTokensPerChar,
      HeadingPath = GetHeadingContext headings start\<rparr>"

text \<open>
  The second half of the loop body, after a chunk was appended and \<open>bestEnd\<close> was found
  below the end of the content: the start of the next chunk.
\<close>

definition next_start :: "int \<Rightarrow> int \<Rightarrow> int \<Rightarrow> int \<Rightarrow> int" where
  "next_start maxChunkChars overlapChars start bestEnd =
     (let nextStart = bestEnd - overlapChars;
          minProgress = maxChunkChars sdiv 10
      in if nextStart \<le> start + minProgress then start + minProgress else nextStart)"

text \<open>
  The loop \<open>for start < contentLen\<close>. Its state is \<open>start\<close>, \<open>chunkIndex\<close> and \<open>chunks\<close>.
  Nothing in the source bounds the iterations that skip a white-space slice, so the
  loop is a partial function: \<open>None\<close> is a run that does not end, \<open>Some (Inl e)\<close> a panic,
  \<open>Some (Inr chunks)\<close> the slice returned.
\<close>

partial_function (option) chunk_loop ::
  "string \<Rightarrow> string \<Rightarrow> string \<Rightarrow> rat \<Rightarrow> HeadingInfo list \<Rightarrow> int \<Rightarrow> int \<Rightarrow>
   int \<Rightarrow> int \<Rightarrow> DocumentChunk list \<Rightarrow> (panic + DocumentChunk list) option"
where
  "chunk_loop filePath content fileHash approxTokensPerChar headings maxChunkChars overlapChars
     start chunkIndex chunks =
     (if start < len content then
        (if chunkIndex > 1000 then Some (Inr chunks)
         else
           (case choose_end content headings maxChunkChars start of
              Inl e \<Rightarrow> Some (Inl e)
            | Inr bestEnd \<Rightarrow>
                (case slice content start bestEnd of
                   Inl e \<Rightarrow> Some (Inl e)
                 | Inr chunkContent \<Rightarrow>
                     if len (TrimSpace chunkContent) = 0 then
                       chunk_loop filePath content fileHash approxTokensPerChar headings
                         maxChunkChars overlapChars bestEnd chunkIndex chunks
                     else
                       (let chunk = make_chunk filePath fileHash approxTokensPerChar headings
                                      chunkIndex chunkContent start bestEnd;
                            chunks = chunks @ [chunk]
                        in if bestEnd \<ge> len content then Some (Inr chunks)
                           else
                             (let nextStart = next_start maxChunkChars overlapChars start bestEnd
                              in if nextStart \<ge> len content then Some (Inr chunks)
                                 else chunk_loop filePath content fileHash approxTokensPerChar
                                        headings maxChunkChars overlapChars nextStart
                                        (chunkIndex + 1) chunks)))))
      else Some (Inr chunks))"

declare chunk_loop.simps [code]

definition maxChunkChars_of :: "int \<Rightarrow> rat \<Rightarrow> int" where
  "maxChunkChars_of maxTokensPerChunk approxTokensPerChar =
     go_int (of_int maxTokensPerChunk / approxTokensPerChar)"

definition overlapChars_of :: "int \<Rightarrow> int \<Rightarrow> int" where
  "overlapChars_of maxChunkChars chunkOverlapPercent =
     go_int (of_int maxChunkChars * of_int chunkOverlapPercent / 100)"

definition ChunkDocument ::
  "string \<Rightarrow> string \<Rightarrow> string \<Rightarrow> int \<Rightarrow> int \<Rightarrow> rat \<Rightarrow> (panic + DocumentChunk list) option"
where
  "ChunkDocument filePath content fileHash maxTokensPerChunk chunkOverlapPercent approxTokensPerChar =
     (if EstimateTokenCount content approxTokensPerChar \<le> maxTokensPerChunk then
        Some (Inr [\<lparr>ID = fileHash @ ''_0'',
                    FilePath = filePath,
                    FileHash = fileHash,
                    ChunkIndex = 0,
                    Content = content,
                    StartOffset = 0,
                    EndOffset = len content,
                    TokenCount = EstimateTokenCount content approxTokensPerChar,
                    HeadingPath = []\<rparr>])
      else
        (let headings = ExtractHeadings content;
             maxChunkChars = maxChunkChars_of maxTokensPerChunk approxTokensPerChar;
             overlapChars = overlapChars_of maxChunkChars chunkOverlapPercent
         in chunk_loop filePath content fileHash approxTokensPerChar headings
              maxChunkChars overlapChars 0 0 []))"

text \<open>
  The heading-preferred cut in the words of the specification: among the headings whose
  position is greater than \<open>start + maxChunkChars/2\<close> and at most \<open>idealEnd\<close>, the one of
  the smallest level, and the earliest of those that share it.
\<close>

definition qualifying :: "HeadingInfo list \<Rightarrow> int \<Rightarrow> int \<Rightarrow> HeadingInfo list" where
  "qualifying headings minHeadingSplitPos idealEnd =
     filter (\<lambda>h. minHeadingSplitPos < Position h \<and> Position h \<le> idealEnd) headings"

fun best_heading :: "HeadingInfo list \<Rightarrow> HeadingInfo option" where
  "best_heading [] = None"
| "best_heading (h # hs) =
     (case best_heading hs of
        None \<Rightarrow> Some h
      | Some b \<Rightarrow> if Level h \<le> Level b then Some h else Some b)"


text \<open>The offsets of a sequence of chunks, as pairs \<open>(StartOffset, EndOffset)\<close>.\<close>

definition chunk_ranges :: "DocumentChunk list \<Rightarrow> (int \<times> int) list" where
  "chunk_ranges chunks = map (\<lambda>c. (StartOffset c, EndOffset c)) chunks"


section \<open>Example documents\<close>

definition paragraph_doc :: string where
  "paragraph_doc = ''ab'' @ [newline, newline] @ ''cdefgh''"

definition sentence_doc :: string where
  "sentence_doc = ''Hello world. This is a test. More text here.''"

definition small_doc :: string where
  "small_doc = ''# Hello'' @ [newline, newline] @ ''This is a small document.''"

definition blank_doc :: string where
  "blank_doc = ''  ''"

definition gap_doc :: string where
  "gap_doc = ''a. '' @ replicate 41 (CHR ''x'') @ replicate 6 (CHR '' '')"

definition heading_doc :: string where
  "heading_doc =
     ''aaaa. '' @ replicate 33 (CHR ''b'') @ [newline] @ ''# Head'' @ [newline] @ ''more text''"


definition stuck_doc :: string where
  "stuck_doc = ''abc defghijk''"

definition stuck_chunk :: "int \<Rightarrow> DocumentChunk" where
  "stuck_chunk i = make_chunk ''f'' ''h'' (1 / 4) [] i ''abc '' 0 4"

section \<open>GetLocalEmbedding\<close>

text \<open>
  What the embedding takes from Go's library and run-time system is a parameter of the
  model: the Unicode tables (\<open>strings.ToLower\<close>, the decoding of a string into runes by
  \<open>range\<close>, \<open>unicode.IsLetter\<close>, \<open>unicode.IsDigit\<close>, the encoding of a rune by
  \<open>WriteRune\<close>), the order in which \<open>range\<close> visits the keys of a map, and the arithmetic
  of \<open>float64\<close> with the conversion to \<open>float32\<close>. A rune is its code point, a
  \<open>float64\<close> a value of type \<open>'f\<close>, a \<open>float32\<close> a value of type \<open>'g\<close>.
\<close>

record ('f, 'g) runtime =
  ToLower :: "string \<Rightarrow> string"
  runes_of :: "string \<Rightarrow> nat list"
  IsLetter :: "nat \<Rightarrow> bool"
  IsDigit :: "nat \<Rightarrow> bool"
  encode_rune :: "nat \<Rightarrow> string"
  range_order :: "(string \<times> int) list \<Rightarrow> (string \<times> int) list"
  float_of_int :: "int \<Rightarrow> 'f"
  float_lit :: "rat \<Rightarrow> 'f"
  fadd :: "'f \<Rightarrow> 'f \<Rightarrow> 'f"
  fsub :: "'f \<Rightarrow> 'f \<Rightarrow> 'f"
  fmul :: "'f \<Rightarrow> 'f \<Rightarrow> 'f"
  fdiv :: "'f \<Rightarrow> 'f \<Rightarrow> 'f"
  Log :: "'f \<Rightarrow> 'f"
  Sqrt :: "'f \<Rightarrow> 'f"
  is_zero :: "'f \<Rightarrow> bool"
  to_float32 :: "'f \<Rightarrow> 'g"
  zero32 :: "'g"

definition LocalEmbeddingDimension :: nat where
  "LocalEmbeddingDimension = 384"

definition stopWords :: "string list" where
  "stopWords =
    [''a'', ''an'', ''and'', ''are'', ''as'', ''at'', ''be'', ''by'', ''for'',
     ''from'', ''has'', ''he'', ''in'', ''is'', ''it'', ''its'', ''of'', ''on'',
     ''or'', ''that'', ''the'', ''to'', ''was'', ''were'', ''will'', ''with'',
     ''this'', ''but'', ''they'', ''have'', ''had'', ''not'', ''been'', ''she'',
     ''her'', ''his'', ''their'', ''which'', ''would'', ''there'', ''what'', ''about'',
     ''if'', ''do'', ''does'', ''did'', ''can'', ''could'', ''should'', ''may'',
     ''might'', ''shall'', ''so'', ''than'', ''then'', ''these'', ''those'', ''each'',
     ''all'', ''any'', ''both'', ''few'', ''more'', ''most'', ''other'', ''some'',
     ''such'', ''no'', ''nor'', ''only'', ''own'', ''same'', ''too'', ''very'',
     ''just'', ''because'', ''how'', ''when'', ''where'', ''who'', ''whom'', ''why'',
     ''also'', ''into'', ''through'', ''during'', ''before'', ''after'', ''above'',
     ''below'', ''between'', ''out'', ''up'', ''down'', ''over'', ''under'', ''again'',
     ''further'', ''once'', ''here'', ''am'', ''you'', ''your'', ''we'', ''our'',
     ''my'', ''me'', ''him'', ''them'', ''us'']"

definition isStopWord :: "string \<Rightarrow> bool" where
  "isStopWord word = (word \<in> set stopWords)"

definition keep_token :: "string \<Rightarrow> bool" where
  "keep_token token = (\<not> isStopWord token \<and> len token > 1)"

text \<open>The loop of \<open>tokenize\<close> over the runes, with \<open>tokens\<close> and the builder \<open>current\<close>.\<close>

fun tokenize_loop ::
  "('f, 'g) runtime \<Rightarrow> nat list \<Rightarrow> string list \<Rightarrow> string \<Rightarrow> string list \<times> string" where
  "tokenize_loop rt [] tokens current = (tokens, current)"
| "tokenize_loop rt (r # rs) tokens current =
     (if IsLetter rt r \<or> IsDigit rt r then tokenize_loop rt rs tokens (current @ encode_rune rt r)
      else if len current > 0 then
        (if keep_token current then tokenize_loop rt rs (tokens @ [current]) []
         else tokenize_loop rt rs tokens [])
      else tokenize_loop rt rs tokens current)"

definition tokenize :: "('f, 'g) runtime \<Rightarrow> string \<Rightarrow> string list" where
  "tokenize rt text =
     (case tokenize_loop rt (runes_of rt (ToLower rt text)) [] [] of
        (tokens, current) \<Rightarrow>
          if len current > 0 \<and> keep_token current then tokens @ [current] else tokens)"

text \<open>
  \<open>hashString\<close>: the 64-bit FNV-1a hash of the eight bytes of the seed, least significant
  first, followed by the bytes of the string. Each byte is xor-ed into the hash, which is
  then multiplied by the FNV prime modulo \<open>2 ^ 64\<close>.
\<close>

definition fnv_byte :: "64 word \<Rightarrow> 8 word \<Rightarrow> 64 word" where
  "fnv_byte h b = (h XOR ucast b) * 1099511628211"

definition fnv_write :: "64 word \<Rightarrow> 8 word list \<Rightarrow> 64 word" where
  "fnv_write h bs = foldl fnv_byte h bs"

definition hashString :: "string \<Rightarrow> 64 word \<Rightarrow> 64 word" where
  "hashString s seed =
     (let seedBytes = [ucast seed, ucast (drop_bit 8 seed), ucast (drop_bit 16 seed),
                       ucast (drop_bit 24 seed), ucast (drop_bit 32 seed),
                       ucast (drop_bit 40 seed), ucast (drop_bit 48 seed),
                       ucast (drop_bit 56 seed)];
          h = fnv_write 14695981039346656037 seedBytes
      in fnv_write h (map of_char s))"

text \<open>
  \<open>addTermToVector\<close> updates the slice in place; the model returns the updated vector.
  \<open>h1 % uint64(len(vector))\<close> panics on an empty vector, and an index below
  \<open>len(vector)\<close> is always in range.
\<close>

definition addTermToVector ::
  "('f, 'g) runtime \<Rightarrow> 'f list \<Rightarrow> string \<Rightarrow> 'f \<Rightarrow> panic + 'f list" where
  "addTermToVector rt vector term weight =
     (let h1 = hashString term 0;
          h2 = hashString term 1
      in if length vector = 0 then Inl DivideByZero
         else
           (let idx1 = unat (h1 mod of_nat (length vector));
                vector = (if h2 mod 2 = 0
                          then vector[idx1 := fadd rt (vector ! idx1) weight]
                          else vector[idx1 := fsub rt (vector ! idx1) weight]);
                idx2 = unat (h2 mod of_nat (length vector));
                h3 = hashString term 2
            in Inr (if h3 mod 2 = 0
                    then vector[idx2 := fadd rt (vector ! idx2) (fmul rt weight (float_lit rt (1/2)))]
                    else vector[idx2 := fsub rt (vector ! idx2) (fmul rt weight (float_lit rt (1/2)))])))"

text \<open>\<open>tf[token]++\<close> on a map kept as a list of pairs with distinct keys.\<close>

fun increment :: "(string \<times> int) list \<Rightarrow> string \<Rightarrow> (string \<times> int) list" where
  "increment [] token = [(token, 1)]"
| "increment ((k, n) # tf) token =
     (if k = token then (k, n + 1) # tf else (k, n) # increment tf token)"

definition count_terms :: "string list \<Rightarrow> (string \<times> int) list" where
  "count_terms tokens = foldl increment [] tokens"

text \<open>The loop \<open>for i := 0; i <= len(term)-3; i++\<close> over the 3-grams of a term.\<close>

function ngram_loop ::
  "('f, 'g) runtime \<Rightarrow> string \<Rightarrow> 'f \<Rightarrow> int \<Rightarrow> 'f list \<Rightarrow> panic + 'f list" where
  "ngram_loop rt term weight i vector =
     (if i \<le> len term - 3 then
        (case slice term i (i + 3) of
           Inl e \<Rightarrow> Inl e
         | Inr ngram \<Rightarrow>
             (case addTermToVector rt vector (''#'' @ ngram @ ''#'')
                     (fmul rt weight (float_lit rt (3/10))) of
                Inl e \<Rightarrow> Inl e
              | Inr vector \<Rightarrow> ngram_loop rt term weight (i + 1) vector))
      else Inr vector)"
  by pat_completeness auto
termination
  by (relation "measure (\<lambda>(rt, term, weight, i, vector). nat (len term - i))") auto

declare ngram_loop.simps [simp del]

text \<open>The loop \<open>for term, count := range tf\<close>, over the pairs in the order of the visit.\<close>

fun term_loop ::
  "('f, 'g) runtime \<Rightarrow> (string \<times> int) list \<Rightarrow> 'f list \<Rightarrow> panic + 'f list" where
  "term_loop rt [] vector = Inr vector"
| "term_loop rt ((term, count) # tf) vector =
     (let weight = fadd rt (float_lit rt 1) (Log rt (float_of_int rt count))
      in case addTermToVector rt vector term weight of
           Inl e \<Rightarrow> Inl e
         | Inr vector \<Rightarrow>
             (case (if len term \<ge> 3 then ngram_loop rt term weight 0 vector else Inr vector) of
                Inl e \<Rightarrow> Inl e
              | Inr vector \<Rightarrow> term_loop rt tf vector))"

text \<open>The loop \<open>for i := 0; i < len(tokens)-1; i++\<close> over the adjacent pairs of tokens.\<close>

fun bigram_loop :: "('f, 'g) runtime \<Rightarrow> string list \<Rightarrow> 'f list \<Rightarrow> panic + 'f list" where
  "bigram_loop rt (t1 # t2 # tokens) vector =
     (case addTermToVector rt vector (t1 @ ''_'' @ t2) (float_lit rt (1/2)) of
        Inl e \<Rightarrow> Inl e
      | Inr vector \<Rightarrow> bigram_loop rt (t2 # tokens) vector)"
| "bigram_loop rt tokens vector = Inr vector"

definition l2Normalize :: "('f, 'g) runtime \<Rightarrow> 'f list \<Rightarrow> 'f list" where
  "l2Normalize rt vector =
     (let sum = foldl (\<lambda>sum v. fadd rt sum (fmul rt v v)) (float_lit rt 0) vector;
          norm = Sqrt rt sum
      in if is_zero rt norm then vector else map (\<lambda>v. fdiv rt v norm) vector)"

text \<open>The loop \<open>for i, v := range vector\<close> that stores \<open>float32(v)\<close> in \<open>result[i]\<close>.\<close>

fun convert_loop :: "('f, 'g) runtime \<Rightarrow> 'f list \<Rightarrow> nat \<Rightarrow> 'g list \<Rightarrow> panic + 'g list" where
  "convert_loop rt [] i result = Inr result"
| "convert_loop rt (v # vs) i result =
     (if i < length result then convert_loop rt vs (i + 1) (result[i := to_float32 rt v])
      else Inl IndexOutOfRange)"

text \<open>
  The two results of \<open>GetLocalEmbedding\<close> are a pair: the vector, and the \<open>error\<close> value,
  \<open>None\<close> for \<open>nil\<close>.
\<close>

type_synonym go_error = "string option"

definition GetLocalEmbedding ::
  "('f, 'g) runtime \<Rightarrow> string \<Rightarrow> panic + ('g list \<times> go_error)" where
  "GetLocalEmbedding rt text =
     (let tokens = tokenize rt text
      in if length tokens = 0 then Inr (replicate LocalEmbeddingDimension (zero32 rt), None)
         else
           (let tf = count_terms tokens;
                vector = replicate LocalEmbeddingDimension (float_lit rt 0)
            in case term_loop rt (range_order rt tf) vector of
                 Inl e \<Rightarrow> Inl e
               | Inr vector \<Rightarrow>
                   (case bigram_loop rt tokens vector of
                      Inl e \<Rightarrow> Inl e
                    | Inr vector \<Rightarrow>
                        (case convert_loop rt (l2Normalize rt vector) 0
                                (replicate LocalEmbeddingDimension (zero32 rt)) of
                           Inl e \<Rightarrow> Inl e
                         | Inr result \<Rightarrow> Inr (result, None)))))"

text \<open>
  \<open>GetEmbedding\<close>, the entry point: the local embedding in local mode, the remote
  provider, a parameter here, in any other.
\<close>

definition EmbeddingModeLocal :: string where
  "EmbeddingModeLocal = ''local''"

definition GetEmbedding ::
  "('f, 'g) runtime \<Rightarrow> (string \<Rightarrow> panic + ('g list \<times> go_error)) \<Rightarrow> string \<Rightarrow> string \<Rightarrow>
   panic + ('g list \<times> go_error)" where
  "GetEmbedding rt getOllamaEmbedding text embeddingMode =
     (if embeddingMode = EmbeddingModeLocal then GetLocalEmbedding rt text
      else getOllamaEmbedding text)"


section \<open>The split point\<close>

lemma sentence_end_at_eq:
  "0 \<le> i \<Longrightarrow> i < len t \<Longrightarrow> sentence_end_at t i = Inr (sentence_end t i)"
  by (auto simp: sentence_end_at_def sentence_end_def index_def)

lemma paragraph_break_at_eq:
  "0 < i \<Longrightarrow> i < len t \<Longrightarrow> paragraph_break_at t i = Inr (paragraph_break t i)"
  by (auto simp: paragraph_break_at_def paragraph_break_def index_def)

lemma scan_down_None:
  "scan_down P lo i = None \<longleftrightarrow> (\<forall>k. lo < k \<and> 0 < k \<and> k \<le> i \<longrightarrow> \<not> P k)"
proof (induction P lo i rule: scan_down.induct)
  case (1 P lo i)
  have split: "\<And>k. k \<le> i \<Longrightarrow> k \<le> i - 1 \<or> k = i" by arith
  show ?case
  proof (cases "i > lo \<and> i > 0")
    case False
    then show ?thesis by (subst scan_down.simps) auto
  next
    case True
    show ?thesis
    proof (cases "P i")
      case True
      with \<open>i > lo \<and> i > 0\<close> show ?thesis by (subst scan_down.simps) auto
    next
      case False
      with True have "scan_down P lo i = scan_down P lo (i - 1)"
        by (subst scan_down.simps) simp
      moreover have "scan_down P lo (i - 1) = None \<longleftrightarrow>
          (\<forall>k. lo < k \<and> 0 < k \<and> k \<le> i - 1 \<longrightarrow> \<not> P k)"
        using "1.IH" True False by simp
      moreover have "(\<forall>k. lo < k \<and> 0 < k \<and> k \<le> i - 1 \<longrightarrow> \<not> P k) \<longleftrightarrow>
          (\<forall>k. lo < k \<and> 0 < k \<and> k \<le> i \<longrightarrow> \<not> P k)"
      proof
        assume a: "\<forall>k. lo < k \<and> 0 < k \<and> k \<le> i - 1 \<longrightarrow> \<not> P k"
        show "\<forall>k. lo < k \<and> 0 < k \<and> k \<le> i \<longrightarrow> \<not> P k"
          using a False split by blast
      next
        assume a: "\<forall>k. lo < k \<and> 0 < k \<and> k \<le> i \<longrightarrow> \<not> P k"
        have "\<And>k. k \<le> i - 1 \<Longrightarrow> k \<le> i" by arith
        then show "\<forall>k. lo < k \<and> 0 < k \<and> k \<le> i - 1 \<longrightarrow> \<not> P k"
          using a by blast
      qed
      ultimately show ?thesis by simp
    qed
  qed
qed

lemma scan_down_Some:
  "scan_down P lo i = Some k \<Longrightarrow>
     lo < k \<and> 0 < k \<and> k \<le> i \<and> P k \<and> (\<forall>j. k < j \<and> j \<le> i \<longrightarrow> \<not> P j)"
proof (induction P lo i rule: scan_down.induct)
  case (1 P lo i)
  have split: "\<And>j. j \<le> i \<Longrightarrow> j \<le> i - 1 \<or> j = i" by arith
  show ?case
  proof (cases "i > lo \<and> i > 0")
    case False
    with "1.prems" show ?thesis by (subst (asm) scan_down.simps) simp
  next
    case True
    show ?thesis
    proof (cases "P i")
      case True
      with \<open>i > lo \<and> i > 0\<close> "1.prems" have "k = i"
        by (subst (asm) scan_down.simps) simp
      with True \<open>i > lo \<and> i > 0\<close> show ?thesis by auto
    next
      case False
      with True "1.prems" have "scan_down P lo (i - 1) = Some k"
        by (subst (asm) scan_down.simps) simp
      then have ih: "lo < k \<and> 0 < k \<and> k \<le> i - 1 \<and> P k \<and>
          (\<forall>j. k < j \<and> j \<le> i - 1 \<longrightarrow> \<not> P j)"
        using "1.IH" True False by simp
      then have "\<forall>j. k < j \<and> j \<le> i \<longrightarrow> \<not> P j"
        using False split by blast
      with ih show ?thesis by simp
    qed
  qed
qed

lemma sentence_loop_scan:
  "i < len t \<Longrightarrow>
     sentence_loop t maxPos i =
       Inr (map_option (\<lambda>k. k + 1) (scan_down (sentence_end t) (maxPos - 200) i))"
proof (induction "nat i" arbitrary: i)
  case 0
  then show ?case
    by (subst sentence_loop.simps, subst scan_down.simps) simp
next
  case (Suc n)
  then have "nat (i - 1) = n" "i - 1 < len t" "0 \<le> i" by auto
  then have "sentence_loop t maxPos (i - 1) =
       Inr (map_option (\<lambda>k. k + 1) (scan_down (sentence_end t) (maxPos - 200) (i - 1)))"
    using Suc.hyps(1) by simp
  then show ?case
    using sentence_end_at_eq[OF \<open>0 \<le> i\<close> Suc.prems]
    by (subst sentence_loop.simps, subst scan_down.simps) simp
qed

lemma paragraph_loop_scan:
  "i < len t \<Longrightarrow>
     paragraph_loop t maxPos i = Inr (scan_down (paragraph_break t) (maxPos - 300) i)"
proof (induction "nat i" arbitrary: i)
  case 0
  then show ?case
    by (subst paragraph_loop.simps, subst scan_down.simps) simp
next
  case (Suc n)
  then have "nat (i - 1) = n" "i - 1 < len t" "0 < i" by auto
  then have "paragraph_loop t maxPos (i - 1) =
       Inr (scan_down (paragraph_break t) (maxPos - 300) (i - 1))"
    using Suc.hyps(1) by simp
  then show ?case
    using paragraph_break_at_eq[OF \<open>0 < i\<close> Suc.prems]
    by (subst paragraph_loop.simps, subst scan_down.simps) simp
qed

lemma line_loop_scan:
  "i < len t \<Longrightarrow>
     line_loop t maxPos i =
       Inr (map_option (\<lambda>k. k + 1) (scan_down (byte_is newline t) (maxPos - 100) i))"
proof (induction "nat i" arbitrary: i)
  case 0
  then show ?case
    by (subst line_loop.simps, subst scan_down.simps) simp
next
  case (Suc n)
  then have "nat (i - 1) = n" "i - 1 < len t" "0 \<le> i" by auto
  then have "line_loop t maxPos (i - 1) =
       Inr (map_option (\<lambda>k. k + 1) (scan_down (byte_is newline t) (maxPos - 100) (i - 1)))"
    using Suc.hyps(1) by simp
  then show ?case
    using \<open>0 \<le> i\<close> Suc.prems
    by (subst line_loop.simps, subst scan_down.simps) (simp add: index_def byte_is_def)
qed

lemma word_loop_scan:
  "i < len t \<Longrightarrow>
     word_loop t maxPos i =
       Inr (map_option (\<lambda>k. k + 1) (scan_down (byte_is (CHR '' '') t) (maxPos - 50) i))"
proof (induction "nat i" arbitrary: i)
  case 0
  then show ?case
    by (subst word_loop.simps, subst scan_down.simps) simp
next
  case (Suc n)
  then have "nat (i - 1) = n" "i - 1 < len t" "0 \<le> i" by auto
  then have "word_loop t maxPos (i - 1) =
       Inr (map_option (\<lambda>k. k + 1) (scan_down (byte_is (CHR '' '') t) (maxPos - 50) (i - 1)))"
    using Suc.hyps(1) by simp
  then show ?case
    using \<open>0 \<le> i\<close> Suc.prems
    by (subst word_loop.simps, subst scan_down.simps) (simp add: index_def byte_is_def)
qed

lemma FindBestSplitPoint_rule:
  "pos < len t \<Longrightarrow> FindBestSplitPoint t pos = Inr (split_rule t pos)"
  by (simp add: FindBestSplitPoint_def split_rule_def sentence_loop_scan paragraph_loop_scan
      line_loop_scan word_loop_scan split: option.splits)

lemma split_rule_bounds:
  assumes "0 < pos"
  shows "0 < split_rule t pos \<and> split_rule t pos \<le> pos + 1"
  using assms
  by (auto simp: split_rule_def split: option.splits dest!: scan_down_Some)

lemma split_rule_nonpos: "pos \<le> 0 \<Longrightarrow> split_rule t pos = pos"
  by (simp add: split_rule_def scan_down.simps)

lemma FindBestSplitPoint_total: "\<exists>r. FindBestSplitPoint t pos = Inr r"
proof (cases "pos < len t")
  case True
  then show ?thesis by (simp add: FindBestSplitPoint_rule)
next
  case False
  then show ?thesis by (simp add: FindBestSplitPoint_def)
qed

text \<open>
  The range of the results. At or beyond the end of the text the result is the length
  of the text; at a position \<open>pos\<close> with \<open>0 < pos < len(text)\<close> it is greater than 0 and
  at most \<open>pos + 1\<close>; at a position \<open>pos \<le> 0\<close> inside a non-empty text no search runs and
  the result is \<open>pos\<close>. The function never panics.
\<close>

lemma FindBestSplitPoint_range:
  "(len t \<le> pos \<longrightarrow> FindBestSplitPoint t pos = Inr (len t)) \<and>
   (0 < pos \<and> pos < len t \<longrightarrow>
      (\<exists>r. FindBestSplitPoint t pos = Inr r \<and> 0 < r \<and> r \<le> pos + 1 \<and> r \<le> len t)) \<and>
   (pos \<le> 0 \<and> pos < len t \<longrightarrow> FindBestSplitPoint t pos = Inr pos)"
proof (intro conjI impI)
  assume "len t \<le> pos"
  then show "FindBestSplitPoint t pos = Inr (len t)"
    by (simp add: FindBestSplitPoint_def)
next
  assume a: "0 < pos \<and> pos < len t"
  then have "FindBestSplitPoint t pos = Inr (split_rule t pos)"
    by (simp add: FindBestSplitPoint_rule)
  moreover have "0 < split_rule t pos \<and> split_rule t pos \<le> pos + 1"
    using a by (simp add: split_rule_bounds)
  ultimately show "\<exists>r. FindBestSplitPoint t pos = Inr r \<and> 0 < r \<and> r \<le> pos + 1 \<and> r \<le> len t"
    using a by auto
next
  assume "pos \<le> 0 \<and> pos < len t"
  then show "FindBestSplitPoint t pos = Inr pos"
    by (simp add: FindBestSplitPoint_rule split_rule_nonpos)
qed

text \<open>
  Claim C2 where the match is at \<open>maxPos\<close> itself. The sentence, line and word searches
  start at \<open>i = maxPos\<close> and return \<open>i + 1\<close>, so a match at \<open>maxPos\<close> gives \<open>maxPos + 1\<close>,
  beyond the position the claim and the name of the parameter set as the maximum:
  3 for \<open>ab. cd\<close> at 2, and 28 at 27 in the text of \<open>TestFindBestSplitPoint\<close>, whose own
  check takes a result above \<open>maxPos\<close> for an error. The paragraph search and the fallback
  return \<open>i\<close> and \<open>maxPos\<close> and stay within the bound.
\<close>

theorem FindBestSplitPoint_overshoot:
  "(2::int) < len ''ab. cd'' \<and> FindBestSplitPoint ''ab. cd'' 2 = Inr 3 \<and>
   27 < len sentence_doc \<and> FindBestSplitPoint sentence_doc 27 = Inr 28 \<and>
   (1::int) < len (''a'' @ [newline] @ ''bc'') \<and>
   FindBestSplitPoint (''a'' @ [newline] @ ''bc'') 1 = Inr 2 \<and>
   (1::int) < len ''a bc'' \<and> FindBestSplitPoint ''a bc'' 1 = Inr 2 \<and>
   FindBestSplitPoint sentence_doc 30 = Inr 28"
  by code_simp

text \<open>
  Claim C8, as the code has it. When no sentence end qualifies in the 200 positions
  down from the target and two consecutive newlines lie in the 300 positions down from
  it, the offset returned is the index of the second newline of the pair nearest to the
  target; the first newline of that pair is at the offset minus one, so it ends the left
  part and the second newline starts the right part.
\<close>

theorem FindBestSplitPoint_paragraph:
  assumes "pos < len t"
    and "\<forall>i. pos - 200 < i \<and> 0 < i \<and> i \<le> pos \<longrightarrow> \<not> sentence_end t i"
    and "pos - 300 < j \<and> 0 < j \<and> j \<le> pos \<and> paragraph_break t j"
  shows "\<exists>r. FindBestSplitPoint t pos = Inr r \<and> j \<le> r \<and> r \<le> pos \<and>
           t ! nat (r - 1) = newline \<and> t ! nat r = newline \<and>
           (\<forall>k. r < k \<and> k \<le> pos \<longrightarrow> \<not> paragraph_break t k)"
proof -
  have s: "scan_down (sentence_end t) (pos - 200) pos = None"
    using assms(2) by (simp add: scan_down_None)
  have "scan_down (paragraph_break t) (pos - 300) pos \<noteq> None"
    using assms(3) by (auto simp: scan_down_None)
  then obtain r where r: "scan_down (paragraph_break t) (pos - 300) pos = Some r"
    by auto
  have p: "pos - 300 < r \<and> 0 < r \<and> r \<le> pos \<and> paragraph_break t r \<and>
      (\<forall>k. r < k \<and> k \<le> pos \<longrightarrow> \<not> paragraph_break t k)"
    using scan_down_Some [OF r] .
  have "j \<le> r"
  proof (rule ccontr)
    assume "\<not> j \<le> r"
    then have "r < j \<and> j \<le> pos" using assms(3) by simp
    with p assms(3) show False by blast
  qed
  moreover have "FindBestSplitPoint t pos = Inr r"
    using assms(1) s r by (simp add: FindBestSplitPoint_rule split_rule_def)
  ultimately show ?thesis
    using p by (auto simp: paragraph_break_def)
qed

theorem FindBestSplitPoint_paragraph_witness:
  "6 < len paragraph_doc \<and> paragraph_break paragraph_doc 3 \<and>
   (\<exists>r. FindBestSplitPoint paragraph_doc 6 = Inr r \<and> 3 \<le> r \<and> r \<le> 6 \<and>
        paragraph_doc ! nat (r - 1) = newline \<and> paragraph_doc ! nat r = newline \<and>
        (\<forall>k. r < k \<and> k \<le> 6 \<longrightarrow> \<not> paragraph_break paragraph_doc k))"
proof -
  have h1: "6 < len paragraph_doc"
    by (simp add: paragraph_doc_def len_def)
  have "scan_down (sentence_end paragraph_doc) (6 - 200) 6 = None"
    by code_simp
  then have h2: "\<forall>i. 6 - 200 < i \<and> 0 < i \<and> i \<le> 6 \<longrightarrow> \<not> sentence_end paragraph_doc i"
    by (simp only: scan_down_None)
  have h3: "6 - 300 < (3::int) \<and> 0 < (3::int) \<and> (3::int) \<le> 6 \<and> paragraph_break paragraph_doc 3"
    by (simp add: paragraph_break_def paragraph_doc_def)
  show ?thesis
    using FindBestSplitPoint_paragraph [OF h1 h2 h3] h1 h3 by simp
qed

text \<open>
  The claim C8 as it is written fails: in \<open>paragraph_doc\<close> the only two consecutive
  newlines are at positions 2 and 3, no sentence end exists, and for the target 6 the
  function returns 3, the position of the second newline, not 2, that of the first.
\<close>

theorem FindBestSplitPoint_paragraph_counterexample:
  "sentence_loop paragraph_doc 6 6 = Inr None \<and>
   paragraph_doc ! 2 = newline \<and> paragraph_doc ! 3 = newline \<and>
   paragraph_doc ! 1 \<noteq> newline \<and> paragraph_doc ! 4 \<noteq> newline \<and>
   FindBestSplitPoint paragraph_doc 6 = Inr 3 \<and>
   FindBestSplitPoint paragraph_doc 6 \<noteq> Inr 2"
  by code_simp


section \<open>The heading context\<close>

lemma pop_loop_filter:
  "sorted_wrt (<) (map Level stack) \<Longrightarrow> pop_loop stack l = filter (\<lambda>e. Level e < l) stack"
proof (induction stack rule: rev_induct)
  case Nil
  show ?case by (subst pop_loop.simps) simp
next
  case (snoc x xs)
  from snoc.prems have sorted_xs: "sorted_wrt (<) (map Level xs)"
    and below: "\<forall>e \<in> set xs. Level e < Level x"
    by (auto simp: sorted_wrt_append)
  show ?case
  proof (cases "Level x \<ge> l")
    case True
    then have "pop_loop (xs @ [x]) l = pop_loop xs l"
      by (subst pop_loop.simps) simp
    with True snoc.IH [OF sorted_xs] show ?thesis by simp
  next
    case False
    then have "pop_loop (xs @ [x]) l = xs @ [x]"
      by (subst pop_loop.simps) simp
    moreover have "filter (\<lambda>e. Level e < l) xs = xs"
      using below False by (auto simp: filter_id_conv)
    ultimately show ?thesis using False by simp
  qed
qed

lemma push_heading_sorted:
  "sorted_wrt (<) (map Level stack) \<Longrightarrow> sorted_wrt (<) (map Level (push_heading stack h))"
  by (auto simp: push_heading_def sorted_wrt_append sorted_wrt_map intro: sorted_wrt_filter)

lemma context_loop_foldl:
  "sorted_wrt (<) (map Level stack) \<Longrightarrow>
     context_loop hs p stack = foldl push_heading stack (takeWhile (\<lambda>h. Position h < p) hs)"
proof (induction hs arbitrary: stack)
  case Nil
  show ?case by simp
next
  case (Cons h hs)
  show ?case
  proof (cases "Position h \<ge> p")
    case True
    then show ?thesis by simp
  next
    case False
    have eq: "pop_loop stack (Level h) @ [h] = push_heading stack h"
      using Cons.prems by (simp add: pop_loop_filter push_heading_def)
    have "sorted_wrt (<) (map Level (push_heading stack h))"
      using Cons.prems by (rule push_heading_sorted)
    then show ?thesis
      using False eq Cons.IH [of "push_heading stack h"] by simp
  qed
qed

lemma takeWhile_filter_sorted:
  "sorted (map Position hs) \<Longrightarrow>
     takeWhile (\<lambda>h. Position h < p) hs = filter (\<lambda>h. Position h < p) hs"
proof (induction hs)
  case Nil
  show ?case by simp
next
  case (Cons h hs)
  show ?case
  proof (cases "Position h < p")
    case True
    with Cons show ?thesis by simp
  next
    case False
    with Cons.prems have "\<forall>x \<in> set hs. \<not> Position x < p" by auto
    then have "filter (\<lambda>h. Position h < p) hs = []" by (simp add: filter_empty_conv)
    with False show ?thesis by simp
  qed
qed

text \<open>
  Claim C7. \<open>GetHeadingContext\<close> computes the context of the specification: the headings
  are taken in order up to the first one at or after the position (a heading exactly at
  the position is excluded), each is pushed after the entries of level greater than or
  equal to its own were removed, and the texts of the final stack are returned outermost
  first. When the positions of the headings are in document order, this leaves out
  exactly the headings at or after the position. For the four headings of the example the
  contexts at 30, 60 and 110 are the ones the specification lists.
\<close>

theorem GetHeadingContext_contextAt:
  "GetHeadingContext hs p = contextAt hs p \<and>
   (sorted (map Position hs) \<longrightarrow> GetHeadingContext hs p = contextAt_all hs p) \<and>
   GetHeadingContext example_headings 30 = [''Title'', ''A''] \<and>
   GetHeadingContext example_headings 60 = [''Title'', ''A'', ''A1''] \<and>
   GetHeadingContext example_headings 110 = [''Title'', ''B'']"
proof -
  have a: "GetHeadingContext hs p = contextAt hs p"
    by (simp add: GetHeadingContext_def contextAt_def context_loop_foldl)
  have b: "sorted (map Position hs) \<longrightarrow> GetHeadingContext hs p = contextAt_all hs p"
    using a by (simp add: contextAt_def contextAt_all_def takeWhile_filter_sorted)
  have c: "GetHeadingContext example_headings 30 = [''Title'', ''A'']"
    by code_simp
  have d: "GetHeadingContext example_headings 60 = [''Title'', ''A'', ''A1'']"
    by code_simp
  have e: "GetHeadingContext example_headings 110 = [''Title'', ''B'']"
    by code_simp
  from a b c d e show ?thesis by blast
qed

theorem GetHeadingContext_contextAt_witness:
  "sorted (map Position example_headings) \<and>
   GetHeadingContext example_headings 50 = contextAt_all example_headings 50 \<and>
   contextAt_all example_headings 50 = [''Title'', ''A'']"
proof -
  have s: "sorted (map Position example_headings)"
    by (simp add: example_headings_def)
  have c: "contextAt_all example_headings 50 = [''Title'', ''A'']"
    by code_simp
  have "GetHeadingContext example_headings 50 = contextAt_all example_headings 50"
    using GetHeadingContext_contextAt [where hs = example_headings and p = 50] s by blast
  with s c show ?thesis by blast
qed

section \<open>Small documents\<close>

text \<open>
  Claim C4. Whenever the token estimate of the content is at most \<open>maxTokensPerChunk\<close>,
  \<open>ChunkDocument\<close> returns exactly one chunk; its content is the whole input, its index
  is 0, it starts at offset 0 and ends at the length of the content.
\<close>

theorem ChunkDocument_small:
  assumes "EstimateTokenCount content r \<le> maxTokens"
  shows "\<exists>c. ChunkDocument fp content fh maxTokens pct r = Some (Inr [c]) \<and>
           Content c = content \<and> ChunkIndex c = 0 \<and> StartOffset c = 0 \<and>
           EndOffset c = len content"
  using assms by (simp add: ChunkDocument_def)

theorem ChunkDocument_small_witness:
  "EstimateTokenCount small_doc (1 / 4) \<le> 4000 \<and>
   (\<exists>c. ChunkDocument ''/test/file.md'' small_doc ''abc123'' 4000 15 (1 / 4) = Some (Inr [c]) \<and>
        Content c = small_doc \<and> ChunkIndex c = 0 \<and> StartOffset c = 0 \<and>
        EndOffset c = len small_doc)"
proof -
  have h: "EstimateTokenCount small_doc (1 / 4) \<le> 4000"
    by code_simp
  show ?thesis
    using ChunkDocument_small [OF h, of "''/test/file.md''" "''abc123''" 15] h by simp
qed


section \<open>The chunking loop\<close>

lemma sdiv_nonneg: "0 < (m::int) \<Longrightarrow> 0 \<le> m sdiv 10"
  by (simp add: signed_divide_int_def sgn_if pos_imp_zdiv_nonneg_iff)

lemma sdiv_pos: "10 \<le> (m::int) \<Longrightarrow> 1 \<le> m sdiv 10"
  by (simp add: signed_divide_int_def sgn_if) 

lemma choose_end_bounds:
  assumes "0 < mcc" "0 \<le> start" "start < len content"
  shows "\<exists>e. choose_end content hs mcc start = Inr e \<and> start < e \<and> e \<le> len content"
proof -
  obtain r where r: "FindBestSplitPoint content (start + mcc) = Inr r"
    using FindBestSplitPoint_total by blast
  show ?thesis
    using assms r by (auto simp: choose_end_def Let_def Min_def)
qed

lemma next_start_ge:
  "0 < mcc \<Longrightarrow> start + mcc sdiv 10 \<le> next_start mcc ov start e"
  by (simp add: next_start_def Let_def)

lemma TrimRight_Nil: "TrimRight [] = []"
  by (subst TrimRight.simps) (simp add: trailing_space_def)

lemma TrimSpace_whitespace_only: "whitespace_only s \<Longrightarrow> TrimSpace s = []"
  by (simp add: whitespace_only_def TrimSpace_def TrimRight_Nil)

lemma TrimLeft_ascii: "\<forall>c \<in> set s. ascii_space c \<Longrightarrow> TrimLeft s = []"
proof (induction s)
  case Nil
  show ?case by (subst TrimLeft.simps) simp
next
  case (Cons c cs)
  then have "leading_space (c # cs) = 1" by simp
  then have "TrimLeft (c # cs) = TrimLeft cs"
    by (subst TrimLeft.simps) simp
  with Cons show ?case by simp
qed


lemma slice_ok:
  "0 \<le> lo \<Longrightarrow> lo \<le> hi \<Longrightarrow> hi \<le> len s \<Longrightarrow>
     slice s lo hi = Inr (take (nat (hi - lo)) (drop (nat lo) s))"
  by (simp add: slice_def)

lemma chunk_loop_total:
  assumes mcc: "0 < mcc"
  shows "0 \<le> start \<Longrightarrow>
     \<exists>cs. chunk_loop fp content fh r hs mcc ov start idx chunks = Some (Inr (chunks @ cs)) \<and>
       (\<forall>c \<in> set cs. start \<le> StartOffset c \<and> StartOffset c < EndOffset c \<and>
          EndOffset c \<le> len content \<and>
          slice content (StartOffset c) (EndOffset c) = Inr (Content c) \<and>
          TrimSpace (Content c) \<noteq> [] \<and> idx \<le> ChunkIndex c) \<and>
       sorted_wrt (\<lambda>a b. StartOffset a + mcc sdiv 10 \<le> StartOffset b) cs"
proof (induction "nat (1001 - idx)" arbitrary: idx start chunks rule: less_induct)
  case outer: (less idx start0 chunks0)
  let ?loop = "chunk_loop fp content fh r hs mcc ov"
  show ?case using outer.prems
  proof (induction "nat (len content - start0)" arbitrary: start0 chunks0 rule: less_induct)
  case inner: (less start chunks)
  show ?case
  proof (cases "start < len content \<and> \<not> idx > 1000")
    case False
    then have "?loop start idx chunks = Some (Inr (chunks @ []))"
      by (subst chunk_loop.simps) auto
    then show ?thesis by (intro exI [of _ "[]"]) simp
  next
    case True
    then obtain e where e: "choose_end content hs mcc start = Inr e" "start < e" "e \<le> len content"
      using choose_end_bounds [OF mcc inner.prems] by blast
    define cc where "cc = take (nat (e - start)) (drop (nat start) content)"
    have sl: "slice content start e = Inr cc"
      using e inner.prems by (simp add: slice_ok cc_def)
    show ?thesis
    proof (cases "len (TrimSpace cc) = 0")
      case blank: True
      have step: "?loop start idx chunks = ?loop e idx chunks"
        using True e sl blank by (subst chunk_loop.simps) simp
      have "nat (len content - e) < nat (len content - start)"
        using e True by simp
      moreover have "0 \<le> e" using e inner.prems by simp
      ultimately obtain cs where cs:
        "?loop e idx chunks = Some (Inr (chunks @ cs))"
        "\<forall>c \<in> set cs. e \<le> StartOffset c \<and> StartOffset c < EndOffset c \<and>
          EndOffset c \<le> len content \<and>
          slice content (StartOffset c) (EndOffset c) = Inr (Content c) \<and>
          TrimSpace (Content c) \<noteq> [] \<and> idx \<le> ChunkIndex c"
        "sorted_wrt (\<lambda>a b. StartOffset a + mcc sdiv 10 \<le> StartOffset b) cs"
        using inner.hyps [of e chunks] by blast
      show ?thesis
        using step cs e by (intro exI [of _ cs]) auto
    next
      case nonblank: False
      define c where "c = make_chunk fp fh r hs idx cc start e"
      have c_ok: "start \<le> StartOffset c \<and> StartOffset c < EndOffset c \<and>
          EndOffset c \<le> len content \<and>
          slice content (StartOffset c) (EndOffset c) = Inr (Content c) \<and>
          TrimSpace (Content c) \<noteq> [] \<and> idx \<le> ChunkIndex c"
        using e sl nonblank by (simp add: c_def make_chunk_def len_def)
      define ns where "ns = next_start mcc ov start e"
      have ns_ge: "start + mcc sdiv 10 \<le> ns"
        using mcc by (simp add: ns_def next_start_ge)
      have ns_start: "start \<le> ns"
        using ns_ge sdiv_nonneg [OF mcc] by simp
      show ?thesis
      proof (cases "e \<ge> len content \<or> ns \<ge> len content")
        case stop: True
        have "?loop start idx chunks = Some (Inr (chunks @ [c]))"
          using True e sl nonblank stop
          by (subst chunk_loop.simps) (auto simp: Let_def c_def ns_def)
        then show ?thesis
          using c_ok by (intro exI [of _ "[c]"]) simp
      next
        case go: False
        have step: "?loop start idx chunks = ?loop ns (idx + 1) (chunks @ [c])"
          using True e sl nonblank go
          by (subst chunk_loop.simps) (auto simp: Let_def c_def ns_def)
        have "nat (1001 - (idx + 1)) < nat (1001 - idx)"
          using True by simp
        moreover have "0 \<le> ns" using ns_start inner.prems by simp
        ultimately obtain cs where cs:
          "?loop ns (idx + 1) (chunks @ [c]) = Some (Inr ((chunks @ [c]) @ cs))"
          "\<forall>c \<in> set cs. ns \<le> StartOffset c \<and> StartOffset c < EndOffset c \<and>
            EndOffset c \<le> len content \<and>
            slice content (StartOffset c) (EndOffset c) = Inr (Content c) \<and>
            TrimSpace (Content c) \<noteq> [] \<and> idx + 1 \<le> ChunkIndex c"
          "sorted_wrt (\<lambda>a b. StartOffset a + mcc sdiv 10 \<le> StartOffset b) cs"
          using outer.hyps [of "idx + 1" ns "chunks @ [c]"] by blast
        have st: "StartOffset c = start" by (simp add: c_def make_chunk_def)
        have "\<forall>c' \<in> set cs. StartOffset c + mcc sdiv 10 \<le> StartOffset c'"
          using cs(2) ns_ge st by fastforce
        moreover have "\<forall>c' \<in> set cs. start \<le> StartOffset c' \<and> idx \<le> ChunkIndex c'"
          using cs(2) ns_start by fastforce
        ultimately show ?thesis
          using step cs c_ok by (intro exI [of _ "c # cs"]) auto
      qed
    qed
  qed
  qed
qed

lemma TrimSpace_non_space:
  assumes "TrimSpace s \<noteq> []"
  shows "\<not> whitespace_only s \<and> (\<exists>ch \<in> set s. \<not> ascii_space ch)"
proof -
  have a: "\<not> whitespace_only s"
    using assms TrimSpace_whitespace_only by blast
  then have "\<not> (\<forall>c \<in> set s. ascii_space c)"
    using TrimLeft_ascii by (auto simp: whitespace_only_def)
  with a show ?thesis by blast
qed

lemma ChunkDocument_large:
  assumes "maxTokens < EstimateTokenCount content r"
    and "0 < maxChunkChars_of maxTokens r"
  shows "\<exists>cs. ChunkDocument fp content fh maxTokens pct r = Some (Inr cs) \<and>
       (\<forall>c \<in> set cs. 0 \<le> StartOffset c \<and> StartOffset c < EndOffset c \<and>
          EndOffset c \<le> len content \<and>
          slice content (StartOffset c) (EndOffset c) = Inr (Content c) \<and>
          TrimSpace (Content c) \<noteq> [] \<and> 0 \<le> ChunkIndex c) \<and>
       sorted_wrt (\<lambda>a b. StartOffset a + maxChunkChars_of maxTokens r sdiv 10 \<le> StartOffset b) cs"
proof -
  have "ChunkDocument fp content fh maxTokens pct r =
      chunk_loop fp content fh r (ExtractHeadings content) (maxChunkChars_of maxTokens r)
        (overlapChars_of (maxChunkChars_of maxTokens r) pct) 0 0 []"
    using assms(1) by (simp add: ChunkDocument_def Let_def)
  then show ?thesis
    using chunk_loop_total [OF assms(2), of 0 fp content fh r "ExtractHeadings content"
        "overlapChars_of (maxChunkChars_of maxTokens r) pct" 0 "[]"]
    by simp
qed








text \<open>
  A run in which a chunk is shorter than \<open>maxChunkChars/10\<close>. In \<open>gap_doc\<close> the first
  chunk ends after the sentence end at 2, the next start is \<open>start + minProgress = 4\<close>,
  and the chunks returned are \<open>[0, 2)\<close> and \<open>[4, 44)\<close>: the byte at position 3, the letter
  \<open>x\<close>, is in no chunk.
\<close>

lemma ChunkDocument_progress_jump:
  "len gap_doc = 50 \<and> 10 < EstimateTokenCount gap_doc (1 / 4) \<and>
   maxChunkChars_of 10 (1 / 4) sdiv 10 = 4 \<and>
   map_option (map_sum id chunk_ranges) (ChunkDocument ''f'' gap_doc ''h'' 10 0 (1 / 4)) =
     Some (Inr [(0, 2), (4, 44)]) \<and>
   gap_doc ! 3 = CHR ''x''"
  by code_simp

text \<open>
  Claim C3, as the code has it. On the chunking path, that is for a document whose token
  estimate exceeds \<open>maxTokensPerChunk\<close>, with a positive \<open>maxChunkChars\<close>, every chunk
  returned has a content that is not white space only: something is left of it after
  \<open>strings.TrimSpace\<close>, and it holds a byte that is not an ASCII white-space character.
\<close>

theorem ChunkDocument_non_blank:
  assumes "maxTokens < EstimateTokenCount content r"
    and "0 < maxChunkChars_of maxTokens r"
  shows "\<exists>cs. ChunkDocument fp content fh maxTokens pct r = Some (Inr cs) \<and>
       (\<forall>c \<in> set cs. TrimSpace (Content c) \<noteq> [] \<and> \<not> whitespace_only (Content c) \<and>
          (\<exists>ch \<in> set (Content c). \<not> ascii_space ch))"
proof -
  obtain cs where cs: "ChunkDocument fp content fh maxTokens pct r = Some (Inr cs)"
    "\<forall>c \<in> set cs. TrimSpace (Content c) \<noteq> []"
    using ChunkDocument_large [OF assms, of fp fh pct] by blast
  then have "\<forall>c \<in> set cs. TrimSpace (Content c) \<noteq> [] \<and> \<not> whitespace_only (Content c) \<and>
          (\<exists>ch \<in> set (Content c). \<not> ascii_space ch)"
    using TrimSpace_non_space by blast
  with cs(1) show ?thesis by blast
qed

theorem ChunkDocument_non_blank_witness:
  "10 < EstimateTokenCount heading_doc (1 / 4) \<and> 0 < maxChunkChars_of 10 (1 / 4) \<and>
   (\<exists>cs. ChunkDocument ''f'' heading_doc ''h'' 10 15 (1 / 4) = Some (Inr cs) \<and>
       (\<forall>c \<in> set cs. TrimSpace (Content c) \<noteq> [] \<and> \<not> whitespace_only (Content c) \<and>
          (\<exists>ch \<in> set (Content c). \<not> ascii_space ch)))"
proof -
  have h1: "10 < EstimateTokenCount heading_doc (1 / 4)"
    by code_simp
  have h2: "0 < maxChunkChars_of 10 (1 / 4)"
    by code_simp
  show ?thesis
    using ChunkDocument_non_blank [OF h1 h2, of "''f''" "''h''" 15] h1 h2 by blast
qed

text \<open>
  The claim C3 as it is written fails on the single-chunk path: the content of two
  spaces has a token estimate of 0, and the one chunk returned for it has these two
  spaces as its content.
\<close>

theorem ChunkDocument_non_blank_counterexample:
  "ChunkDocument ''f'' blank_doc ''h'' 4000 15 (1 / 4) =
     Some (Inr [\<lparr>ID = ''h_0'', FilePath = ''f'', FileHash = ''h'', ChunkIndex = 0,
                 Content = ''  '', StartOffset = 0, EndOffset = 2, TokenCount = 0,
                 HeadingPath = []\<rparr>]) \<and>
   whitespace_only ''  '' \<and> TrimSpace ''  '' = []"
  by code_simp

text \<open>
  What the first half of the loop body computes. A qualifying heading of a level below 7
  that does not sit at \<open>idealEnd\<close> ends the chunk at its position; with no qualifying
  heading the end is the result of \<open>FindBestSplitPoint\<close> at \<open>idealEnd\<close>, clamped.
\<close>

lemma heading_loop_best:
  "heading_loop hs lo hi (e, l) =
     (case best_heading (qualifying hs lo hi) of
        None \<Rightarrow> (e, l)
      | Some b \<Rightarrow> if Level b < l then (Position b, Level b) else (e, l))"
proof (induction hs arbitrary: e l)
  case Nil
  show ?case by (simp add: qualifying_def)
next
  case (Cons h hs)
  show ?case
    using Cons.IH [of e l] Cons.IH [of "Position h" "Level h"]
    by (auto simp: qualifying_def split: option.splits)
qed

lemma choose_end_heading:
  assumes "best_heading (qualifying hs (start + mcc sdiv 2) (start + mcc)) = Some b"
    and "Level b < 7" and "Position b \<noteq> start + mcc" and "Position b \<le> len content"
    and "0 < mcc"
  shows "choose_end content hs mcc start = Inr (Position b)"
proof -
  have "fst (heading_loop hs (start + mcc sdiv 2) (start + mcc) (start + mcc, 7)) = Position b"
    using assms(1,2) by (simp add: heading_loop_best)
  moreover have "best_heading (qualifying hs (start + mcc sdiv 2) (start + mcc)) = Some b \<Longrightarrow>
      start + mcc sdiv 2 < Position b"
  proof (induction hs)
    case Nil
    then show ?case by (simp add: qualifying_def)
  next
    case (Cons h hs)
    then show ?case
      by (auto simp: qualifying_def split: option.splits if_splits)
  qed
  moreover have "0 \<le> mcc sdiv 2"
    using assms(5) by (simp add: signed_divide_int_def sgn_if pos_imp_zdiv_nonneg_iff)
  ultimately show ?thesis
    using assms by (simp add: choose_end_def Let_def)
qed

lemma choose_end_no_heading:
  assumes "best_heading (qualifying hs (start + mcc sdiv 2) (start + mcc)) = None"
  shows "choose_end content hs mcc start =
     (case FindBestSplitPoint content (start + mcc) of
        Inl e \<Rightarrow> Inl e
      | Inr r \<Rightarrow>
          Inr (let r = (if r > len content then len content else r)
               in if r \<le> start then start + Min mcc (len content - start) else r))"
  using assms by (auto simp: choose_end_def Let_def heading_loop_best split: sum.splits)

text \<open>
  Claim C6 at a heading that sits exactly at \<open>start + maxChunkChars\<close>. In \<open>heading_doc\<close>
  the only heading is at position 40, and \<open>maxChunkChars\<close> is 40, so for the first chunk
  the heading qualifies (\<open>20 < 40 \<le> 40\<close>). The first chunk nevertheless ends at 5, after
  the sentence end that \<open>FindBestSplitPoint\<close> finds, because the heading's position equals
  \<open>idealEnd\<close> and the test \<open>bestEnd == idealEnd\<close> takes that for no heading found.
\<close>

theorem ChunkDocument_heading_at_ideal_end:
  "ExtractHeadings heading_doc = [\<lparr>Level = 1, Text = ''Head'', Position = 40\<rparr>] \<and>
   maxChunkChars_of 10 (1 / 4) = 40 \<and>
   10 < EstimateTokenCount heading_doc (1 / 4) \<and>
   FindBestSplitPoint heading_doc 40 = Inr 5 \<and>
   choose_end heading_doc (ExtractHeadings heading_doc) 40 0 = Inr 5 \<and>
   map_option (map_sum id chunk_ranges) (ChunkDocument ''f'' heading_doc ''h'' 10 15 (1 / 4)) =
     Some (Inr [(0, 5), (4, 40), (34, 56)])"
  by code_simp


lemma stuck_step:
  assumes "idx \<le> 1000"
  shows "chunk_loop ''f'' stuck_doc ''h'' (1 / 4) [] 8 4 0 idx chunks =
         chunk_loop ''f'' stuck_doc ''h'' (1 / 4) [] 8 4 0 (idx + 1) (chunks @ [stuck_chunk idx])"
proof -
  have l: "len stuck_doc = 12" by code_simp
  have e: "choose_end stuck_doc [] 8 0 = Inr 4" by code_simp
  have s: "slice stuck_doc 0 4 = Inr ''abc ''" by code_simp
  have t: "len (TrimSpace ''abc '') = 3" by code_simp
  have n: "next_start 8 4 0 4 = 0" by code_simp
  show ?thesis
    using assms by (subst chunk_loop.simps) (simp add: l e s t n stuck_chunk_def)
qed

lemma stuck_run:
  "idx = 1001 - int n \<Longrightarrow>
     chunk_loop ''f'' stuck_doc ''h'' (1 / 4) [] 8 4 0 idx chunks =
       Some (Inr (chunks @ map stuck_chunk [idx..1000]))"
proof (induction n arbitrary: idx chunks)
  case 0
  then show ?case by (subst chunk_loop.simps) simp
next
  case (Suc n)
  then have le: "idx \<le> 1000" and nx: "idx + 1 = 1001 - int n" by simp_all
  have "[idx..1000] = idx # [idx + 1..1000]"
    using le by (simp add: upto_rec1)
  then show ?case
    using stuck_step [OF le] Suc.IH [OF nx] by simp
qed

text \<open>
  Claim C5 at a small \<open>maxChunkChars\<close>. For \<open>stuck_doc\<close> with \<open>maxTokensPerChunk = 2\<close>, the
  ratio \<open>0.25\<close> and an overlap of 50 percent, \<open>maxChunkChars\<close> is 8, the overlap is 4 and
  \<open>minProgress = 8 / 10 = 0\<close>. The first chunk ends at the word boundary 4, the next
  start is \<open>4 - 4 = 0\<close> again, and the loop repeats the same chunk until the cap on
  \<open>chunkIndex\<close> stops it: 1001 chunks, every one with the offsets \<open>[0, 4)\<close>.
\<close>

theorem ChunkDocument_no_progress:
  "2 < EstimateTokenCount stuck_doc (1 / 4) \<and> maxChunkChars_of 2 (1 / 4) = 8 \<and>
   map_option (map_sum id chunk_ranges) (ChunkDocument ''f'' stuck_doc ''h'' 2 50 (1 / 4)) =
     Some (Inr (replicate 1001 (0, 4)))"
proof -
  have a: "2 < EstimateTokenCount stuck_doc (1 / 4)" by code_simp
  have b: "maxChunkChars_of 2 (1 / 4) = 8" by code_simp
  have c: "overlapChars_of 8 50 = 4" by code_simp
  have d: "ExtractHeadings stuck_doc = []" by code_simp
  have "ChunkDocument ''f'' stuck_doc ''h'' 2 50 (1 / 4) =
      chunk_loop ''f'' stuck_doc ''h'' (1 / 4) [] 8 4 0 0 []"
    using a by (simp add: ChunkDocument_def b c d)
  also have "\<dots> = Some (Inr (map stuck_chunk [0..1000]))"
    using stuck_run [of 0 1001 "[]"] by simp
  finally have "map_option (map_sum id chunk_ranges)
      (ChunkDocument ''f'' stuck_doc ''h'' 2 50 (1 / 4)) =
      Some (Inr (map (\<lambda>i. (0, 4)) [0..1000]))"
    by (simp add: chunk_ranges_def stuck_chunk_def make_chunk_def comp_def)
  moreover have "map (\<lambda>i. (0::int, 4::int)) [0..1000::int] = replicate 1001 (0, 4)"
    by (simp add: map_replicate_const)
  ultimately show ?thesis using a b by simp
qed

text \<open>
  From \<open>maxChunkChars = 10\<close> on, \<open>minProgress\<close> is at least 1 and the start offsets of the
  chunks returned are strictly increasing.
\<close>

lemma ChunkDocument_starts_increase:
  assumes "maxTokens < EstimateTokenCount content r"
    and "10 \<le> maxChunkChars_of maxTokens r"
  shows "\<exists>cs. ChunkDocument fp content fh maxTokens pct r = Some (Inr cs) \<and>
       sorted_wrt (\<lambda>a b. StartOffset a < StartOffset b) cs"
proof -
  have p: "0 < maxChunkChars_of maxTokens r" using assms(2) by simp
  obtain cs where cs: "ChunkDocument fp content fh maxTokens pct r = Some (Inr cs)"
    "sorted_wrt (\<lambda>a b. StartOffset a + maxChunkChars_of maxTokens r sdiv 10 \<le> StartOffset b) cs"
    using ChunkDocument_large [OF assms(1) p, of fp fh pct] by blast
  have "sorted_wrt (\<lambda>a b. StartOffset a < StartOffset b) cs"
  proof (rule sorted_wrt_mono_rel [OF _ cs(2)])
    fix x y
    assume "x \<in> set cs" "y \<in> set cs"
      "StartOffset x + maxChunkChars_of maxTokens r sdiv 10 \<le> StartOffset y"
    then show "StartOffset x < StartOffset y"
      using sdiv_pos [OF assms(2)] by simp
  qed
  with cs(1) show ?thesis by blast
qed


section \<open>The local embedding\<close>

lemma addTermToVector_length:
  "0 < length v \<Longrightarrow> \<exists>v'. addTermToVector rt v tm w = Inr v' \<and> length v' = length v"
  by (simp add: addTermToVector_def Let_def)

lemma ngram_loop_length:
  "0 \<le> i \<Longrightarrow> 0 < length v \<Longrightarrow>
     \<exists>v'. ngram_loop rt tm w i v = Inr v' \<and> length v' = length v"
proof (induction "nat (len tm - i)" arbitrary: i v rule: less_induct)
  case less
  show ?case
  proof (cases "i \<le> len tm - 3")
    case False
    then show ?thesis by (subst ngram_loop.simps) simp
  next
    case True
    then have sl: "slice tm i (i + 3) = Inr (take 3 (drop (nat i) tm))"
      using less.prems by (simp add: slice_def)
    obtain v1 where v1: "addTermToVector rt v (''#'' @ take 3 (drop (nat i) tm) @ ''#'')
        (fmul rt w (float_lit rt (3 / 10))) = Inr v1" "length v1 = length v"
      using addTermToVector_length [OF less.prems(2)] by blast
    have "nat (len tm - (i + 1)) < nat (len tm - i)" using True by simp
    then obtain v' where "ngram_loop rt tm w (i + 1) v1 = Inr v'" "length v' = length v1"
      using less.hyps [of "i + 1" v1] less.prems v1(2) by auto
    then show ?thesis
      using True sl v1 by (subst ngram_loop.simps) simp
  qed
qed

lemma term_loop_length:
  "0 < length v \<Longrightarrow> \<exists>v'. term_loop rt tf v = Inr v' \<and> length v' = length v"
proof (induction tf arbitrary: v)
  case Nil
  show ?case by simp
next
  case (Cons a tf)
  obtain tm n where a: "a = (tm, n)" by (cases a)
  define w where "w = fadd rt (float_lit rt 1) (Log rt (float_of_int rt n))"
  obtain v1 where v1: "addTermToVector rt v tm w = Inr v1" "length v1 = length v"
    using addTermToVector_length [OF Cons.prems] by blast
  have "\<exists>v2. (if len tm \<ge> 3 then ngram_loop rt tm w 0 v1 else Inr v1) = Inr v2 \<and>
      length v2 = length v1"
    using ngram_loop_length [of 0 v1 rt tm w] v1(2) Cons.prems by auto
  then obtain v2 where v2: "(if len tm \<ge> 3 then ngram_loop rt tm w 0 v1 else Inr v1) = Inr v2"
    "length v2 = length v1" by blast
  obtain v' where "term_loop rt tf v2 = Inr v'" "length v' = length v2"
    using Cons.IH [of v2] v2(2) v1(2) Cons.prems by auto
  moreover have "term_loop rt (a # tf) v = term_loop rt tf v2"
    using a v1(1) v2(1) unfolding w_def by (simp add: Let_def split: if_splits)
  ultimately show ?case
    using v2(2) v1(2) by simp
qed

lemma bigram_loop_length:
  "0 < length v \<Longrightarrow> \<exists>v'. bigram_loop rt tokens v = Inr v' \<and> length v' = length v"
proof (induction rt tokens v rule: bigram_loop.induct)
  case (1 rt t1 t2 tokens vector)
  obtain v1 where v1: "addTermToVector rt vector (t1 @ ''_'' @ t2) (float_lit rt (1 / 2)) = Inr v1"
    "length v1 = length vector"
    using addTermToVector_length [OF "1.prems"] by blast
  then show ?case
    using "1.IH" [OF v1(1)] "1.prems" by simp
qed simp_all

lemma l2Normalize_length: "length (l2Normalize rt v) = length v"
  by (simp add: l2Normalize_def Let_def)

lemma convert_loop_length:
  "i + length vs \<le> length res \<Longrightarrow>
     \<exists>res'. convert_loop rt vs i res = Inr res' \<and> length res' = length res"
proof (induction vs arbitrary: i res)
  case Nil
  show ?case by simp
next
  case (Cons a vs)
  have "(i + 1) + length vs \<le> length (res[i := to_float32 rt a])"
    using Cons.prems by simp
  then obtain res' where "convert_loop rt vs (i + 1) (res[i := to_float32 rt a]) = Inr res'"
    "length res' = length (res[i := to_float32 rt a])"
    using Cons.IH by blast
  then show ?case
    using Cons.prems by simp
qed

text \<open>
  Claim C10. For every input string, whatever the Unicode tables, the order of the map
  iteration and the floating-point operations are, \<open>GetLocalEmbedding\<close> does not panic
  and returns a \<open>nil\<close> error with a vector of exactly \<open>LocalEmbeddingDimension = 384\<close>
  elements, also when the text yields no token; \<open>GetEmbedding\<close> in local mode returns the
  same pair.
\<close>

theorem GetLocalEmbedding_dimension:
  "\<exists>v. GetLocalEmbedding rt t = Inr (v, None) \<and> length v = LocalEmbeddingDimension \<and>
        LocalEmbeddingDimension = 384 \<and>
        GetEmbedding rt getOllamaEmbedding t EmbeddingModeLocal = Inr (v, None)"
proof (cases "length (tokenize rt t) = 0")
  case True
  then show ?thesis
    by (simp add: GetLocalEmbedding_def GetEmbedding_def LocalEmbeddingDimension_def)
next
  case False
  define v0 where "v0 = replicate LocalEmbeddingDimension (float_lit rt 0)"
  have l0: "length v0 = 384" by (simp add: v0_def LocalEmbeddingDimension_def)
  obtain v1 where v1: "term_loop rt (range_order rt (count_terms (tokenize rt t))) v0 = Inr v1"
    "length v1 = length v0"
    using term_loop_length [of v0] l0 by auto
  obtain v2 where v2: "bigram_loop rt (tokenize rt t) v1 = Inr v2" "length v2 = length v1"
    using bigram_loop_length [of v1] v1(2) l0 by auto
  have "length (l2Normalize rt v2) = 384"
    using v2(2) v1(2) l0 by (simp add: l2Normalize_length)
  then obtain res where res: "convert_loop rt (l2Normalize rt v2) 0
      (replicate LocalEmbeddingDimension (zero32 rt)) = Inr res"
    "length res = length (replicate LocalEmbeddingDimension (zero32 rt))"
    using convert_loop_length [of 0 "l2Normalize rt v2"
        "replicate LocalEmbeddingDimension (zero32 rt)" rt]
    by (auto simp: LocalEmbeddingDimension_def)
  have "GetLocalEmbedding rt t = Inr (res, None)"
    using False v1(1) v2(1) res(1) by (simp add: GetLocalEmbedding_def Let_def v0_def)
  then show ?thesis
    using res(2) by (simp add: GetEmbedding_def LocalEmbeddingDimension_def)
qed

end
